theory Spec2Isabelle
  imports Main "HOL-Library.Word" "HOL-Library.Multiset" "HOL-Library.Sublist"
begin

section \<open>Teddy engine descriptions: data model\<close>

text \<open>
  The development embeds \<^verbatim>\<open>src/fdr/teddy_engine_description.cpp\<close>. The C++ types
  \<^verbatim>\<open>u8\<close>, \<^verbatim>\<open>u32\<close> and \<^verbatim>\<open>u64\<close> are words of that width, so that \<open>+\<close> and \<open>*\<close> wrap as
  they do in the source. Values of type \<^verbatim>\<open>size_t\<close> are natural numbers: each of them is
  the length of a container or a counter that a loop guard keeps below such a length,
  so none of the \<^verbatim>\<open>size_t\<close> additions of the source can wrap. The one \<^verbatim>\<open>size_t\<close>
  subtraction, in the index of a string read, is computed over \<open>int\<close> and checked
  against the bounds of the string (see \<open>string_at\<close>).
\<close>

type_synonym u8 = "8 word"
type_synonym u32 = "32 word"
type_synonym u64 = "64 word"

text \<open>
  What stops a run of the program: a failed \<^verbatim>\<open>assert\<close>, a string read outside the
  string, an unsigned division by zero and an overflow of \<^verbatim>\<open>int\<close> arithmetic.
\<close>

datatype error = AssertionFailed | OutOfBounds | DivideByZero | SignedOverflow

text \<open>
  Modelled from the spec: the struct \<^verbatim>\<open>hwlmLiteral\<close> is declared outside the given
  sources. The code reads its fields \<^verbatim>\<open>s\<close> (the bytes of the literal) and \<^verbatim>\<open>msk\<close> (the
  exclusion mask, empty when unused).
\<close>

record hwlmLiteral =
  s :: string
  msk :: "u8 list"

text \<open>
  The fields that the constructor of \<^verbatim>\<open>TeddyEngineDescription\<close> initialises. The
  accessors \<^verbatim>\<open>getID()\<close> and \<^verbatim>\<open>getNumBuckets()\<close> of the base class read \<open>ID\<close> and
  \<open>numBuckets\<close>. The capability set a variant needs is a bit mask.
\<close>

record TeddyEngineDescription =
  ID :: u32
  requiredCapabilities :: u64
  numBuckets :: u32
  confirmPullBackDistance :: u32
  confirmTopLevelSplit :: u32
  numMasks :: u32
  packed :: bool

type_synonym target_t = u64

unbundle bit_operations_syntax

text \<open>
  Modelled from the spec: \<^verbatim>\<open>isValidOnTarget\<close> belongs to the base class, which is not
  among the given sources. It is true iff the capabilities the descriptor requires are
  a subset of the supplied ones.
\<close>

definition isValidOnTarget :: "TeddyEngineDescription \<Rightarrow> target_t \<Rightarrow> bool" where
  "isValidOnTarget eng target \<longleftrightarrow> requiredCapabilities eng AND NOT target = 0"

text \<open>
  Modelled from the spec: \<^verbatim>\<open>maxLen\<close> is defined outside the given sources. It is the
  maximum literal length in the set (0 for the empty set).
\<close>

fun maxLen_loop :: "hwlmLiteral list \<Rightarrow> nat \<Rightarrow> nat" where
  "maxLen_loop [] rv = rv"
| "maxLen_loop (lit # lits) rv = maxLen_loop lits (max rv (length (s lit)))"

definition maxLen :: "hwlmLiteral list \<Rightarrow> nat" where
  "maxLen lits = maxLen_loop lits 0"

section \<open>Confirmation-need predicate\<close>

text \<open>The \<^verbatim>\<open>for\<close> loop of \<^verbatim>\<open>needConfirm\<close>, which returns at the first qualifying literal.\<close>

fun needConfirm_loop :: "TeddyEngineDescription \<Rightarrow> hwlmLiteral list \<Rightarrow> bool" where
  "needConfirm_loop eng [] = False"
| "needConfirm_loop eng (lit # lits) =
     (if length (s lit) > unat (numMasks eng) \<or> msk lit \<noteq> [] then True
      else needConfirm_loop eng lits)"

definition needConfirm :: "TeddyEngineDescription \<Rightarrow> hwlmLiteral list \<Rightarrow> bool" where
  "needConfirm eng lits =
     (if packed eng \<or> length lits > unat (numBuckets eng) then True
      else needConfirm_loop eng lits)"

section \<open>Flood-tail analysis\<close>

text \<open>
  A read \<^verbatim>\<open>str[i]\<close>. The index is the mathematical value of the \<^verbatim>\<open>size_t\<close> expression:
  where that value is negative the \<^verbatim>\<open>size_t\<close> computation wraps to an index beyond
  every string, so both ways of leaving the string end in \<open>OutOfBounds\<close>.
\<close>

definition string_at :: "string \<Rightarrow> int \<Rightarrow> error + char" where
  "string_at str i = (if 0 \<le> i \<and> i < int (length str) then Inr (str ! nat i) else Inl OutOfBounds)"

text \<open>
  The inner loop of \<^verbatim>\<open>maxFloodTailLen\<close>, from the value \<open>j\<close> of its counter on:
  \<^verbatim>\<open>for (j = 1; j < s.length(); j++) if (s[s.length() - j - 1] != s[s.length() - 1]) break;\<close>
  The result is the value of \<open>j\<close> after the loop.
\<close>

function flood_tail_loop :: "string \<Rightarrow> nat \<Rightarrow> error + nat" where
  "flood_tail_loop str j =
     (if j < length str then
        (case string_at str (int (length str) - int j - 1) of
           Inl e \<Rightarrow> Inl e
         | Inr a \<Rightarrow>
             (case string_at str (int (length str) - 1) of
                Inl e \<Rightarrow> Inl e
              | Inr b \<Rightarrow> if a \<noteq> b then Inr j else flood_tail_loop str (j + 1)))
      else Inr j)"
  by pat_completeness auto
termination
  by (relation "measure (\<lambda>(str, j). length str - j)") auto

declare flood_tail_loop.simps [simp del]

text \<open>
  The outer loop of \<^verbatim>\<open>maxFloodTailLen\<close> with its accumulator. The assertion
  \<^verbatim>\<open>assert(!s.empty())\<close> is a branch of the model.
\<close>

fun maxFloodTailLen_loop :: "hwlmLiteral list \<Rightarrow> nat \<Rightarrow> error + nat" where
  "maxFloodTailLen_loop [] max_flood_tail = Inr max_flood_tail"
| "maxFloodTailLen_loop (lit # vl) max_flood_tail =
     (if s lit = [] then Inl AssertionFailed
      else (case flood_tail_loop (s lit) 1 of
              Inl e \<Rightarrow> Inl e
            | Inr j \<Rightarrow> maxFloodTailLen_loop vl (max max_flood_tail j)))"

definition maxFloodTailLen :: "hwlmLiteral list \<Rightarrow> error + nat" where
  "maxFloodTailLen vl = maxFloodTailLen_loop vl 0"

text \<open>
  The length of the run of bytes equal to the last byte of \<open>str\<close> at the end of \<open>str\<close>,
  the last byte included. This is the specification-side quantity that the loop is
  compared with; it is between 1 and the length for a non-empty string.
\<close>

definition suffix_run :: "string \<Rightarrow> nat" where
  "suffix_run str = length (takeWhile (\<lambda>c. c = last str) (rev str))"

section \<open>Eligibility filter\<close>

text \<open>
  The counting loop of \<^verbatim>\<open>isAllowed\<close>; the counter \<^verbatim>\<open>n_small_lits\<close> is a \<^verbatim>\<open>u32\<close>.
\<close>

fun count_small_lits :: "TeddyEngineDescription \<Rightarrow> hwlmLiteral list \<Rightarrow> u32 \<Rightarrow> u32" where
  "count_small_lits eng [] n_small_lits = n_small_lits"
| "count_small_lits eng (lit # vl) n_small_lits =
     count_small_lits eng vl
       (if length (s lit) < unat (numMasks eng) then n_small_lits + 1 else n_small_lits)"

text \<open>
  The macro \<^verbatim>\<open>TEDDY_BUCKET_LOAD\<close> is defined outside the given sources, so it is a
  parameter. It multiplies a \<^verbatim>\<open>u32\<close>, and the product is a \<^verbatim>\<open>u32\<close> as well, as is
  \<^verbatim>\<open>n_small_lits * 5\<close>; a comparison with \<^verbatim>\<open>vl.size()\<close> widens the \<^verbatim>\<open>u32\<close> first.
\<close>

definition isAllowed ::
  "u32 \<Rightarrow> hwlmLiteral list \<Rightarrow> TeddyEngineDescription \<Rightarrow> nat \<Rightarrow> target_t \<Rightarrow> bool" where
  "isAllowed TEDDY_BUCKET_LOAD vl eng max_lit_len target =
     (if \<not> isValidOnTarget eng target then False
      else if unat (numBuckets eng) < length vl \<and> \<not> packed eng then False
      else if unat (numBuckets eng * TEDDY_BUCKET_LOAD) < length vl then False
      else if unat (numMasks eng) > max_lit_len then False
      else if length vl > 40 then
        (let n_small_lits = count_small_lits eng vl 0
         in if unat (n_small_lits * 5) > length vl then False else True)
      else True)"

text \<open>
  Checks 2 and 3 of \<^verbatim>\<open>isAllowed\<close> on their own, as a function of the number of
  literals: the two tests on the bucket capacity.
\<close>

definition bucket_capacity_ok :: "u32 \<Rightarrow> TeddyEngineDescription \<Rightarrow> nat \<Rightarrow> bool" where
  "bucket_capacity_ok TEDDY_BUCKET_LOAD eng n \<longleftrightarrow>
     \<not> (unat (numBuckets eng) < n \<and> \<not> packed eng) \<and>
     \<not> unat (numBuckets eng * TEDDY_BUCKET_LOAD) < n"

section \<open>Selection heuristic\<close>

text \<open>
  The score that the body of the loop of \<^verbatim>\<open>chooseTeddyEngine\<close> computes for one
  engine. \<^verbatim>\<open>score\<close> is a \<^verbatim>\<open>u32\<close>. The cast \<^verbatim>\<open>(int)eng.numMasks\<close> reads the word as two's
  complement; \<^verbatim>\<open>3 - (int)eng.numMasks\<close>, \<^verbatim>\<open>abs\<close> and \<^verbatim>\<open>+ 1\<close> are \<^verbatim>\<open>int\<close> operations, which
  must stay at or below \<^verbatim>\<open>INT_MAX\<close>; the quotient is added to the \<^verbatim>\<open>u32\<close>. The last
  division is unsigned and divides by the number of buckets.
\<close>

definition INT_MAX :: int where
  "INT_MAX = 2147483647"

definition engine_score ::
  "hwlmLiteral list \<Rightarrow> nat \<Rightarrow> TeddyEngineDescription \<Rightarrow> error + u32" where
  "engine_score vl max_flood_tail eng =
     (let score = 0;
          score = (if \<not> packed eng then score + 100 else score);
          score = (if length vl > unat (4 * numBuckets eng)
                   then score + numMasks eng * 4 else score + 100);
          score = (if unat (numMasks eng) > max_flood_tail then score + 50 else score);
          d = 3 - sint (numMasks eng)
      in if d > INT_MAX \<or> \<bar>d\<bar> + 1 > INT_MAX then Inl SignedOverflow
         else
           (let score = score + word_of_int (6 div (\<bar>d\<bar> + 1))
            in if numBuckets eng = 0 then Inl DivideByZero
               else Inr (score + 16 div numBuckets eng)))"

text \<open>
  The loop of \<^verbatim>\<open>chooseTeddyEngine\<close> over the catalog, with its state \<^verbatim>\<open>best\<close> and
  \<^verbatim>\<open>best_score\<close>. The pointer \<^verbatim>\<open>best\<close> is the descriptor it points to, or \<open>None\<close> for
  \<^verbatim>\<open>nullptr\<close>.
\<close>

fun chooseTeddyEngine_loop ::
  "u32 \<Rightarrow> target_t \<Rightarrow> hwlmLiteral list \<Rightarrow> nat \<Rightarrow> nat \<Rightarrow> TeddyEngineDescription list \<Rightarrow>
   TeddyEngineDescription option \<Rightarrow> u32 \<Rightarrow> error + TeddyEngineDescription option" where
  "chooseTeddyEngine_loop TEDDY_BUCKET_LOAD target vl max_lit_len max_flood_tail [] best best_score =
     Inr best"
| "chooseTeddyEngine_loop TEDDY_BUCKET_LOAD target vl max_lit_len max_flood_tail (eng # descs) best best_score =
     (if \<not> isAllowed TEDDY_BUCKET_LOAD vl eng max_lit_len target
      then chooseTeddyEngine_loop TEDDY_BUCKET_LOAD target vl max_lit_len max_flood_tail descs best best_score
      else
        (case engine_score vl max_flood_tail eng of
           Inl e \<Rightarrow> Inl e
         | Inr score \<Rightarrow>
             if best = None \<or> score > best_score
             then chooseTeddyEngine_loop TEDDY_BUCKET_LOAD target vl max_lit_len max_flood_tail descs (Some eng) score
             else chooseTeddyEngine_loop TEDDY_BUCKET_LOAD target vl max_lit_len max_flood_tail descs best best_score))"

text \<open>
  \<^verbatim>\<open>chooseTeddyEngine\<close>. The catalog that \<^verbatim>\<open>getTeddyDescriptions\<close> fills in is generated
  data outside the given sources, so it is the parameter \<open>descs\<close>. The result is a copy
  of the best descriptor, or \<open>None\<close> for \<^verbatim>\<open>nullptr\<close>.
\<close>

definition chooseTeddyEngine ::
  "u32 \<Rightarrow> TeddyEngineDescription list \<Rightarrow> target_t \<Rightarrow> hwlmLiteral list \<Rightarrow>
   error + TeddyEngineDescription option" where
  "chooseTeddyEngine TEDDY_BUCKET_LOAD descs target vl =
     (let max_lit_len = maxLen vl
      in case maxFloodTailLen vl of
           Inl e \<Rightarrow> Inl e
         | Inr max_flood_tail \<Rightarrow>
             chooseTeddyEngine_loop TEDDY_BUCKET_LOAD target vl max_lit_len max_flood_tail descs None 0)"

section \<open>Descriptor lookup\<close>

fun getTeddyDescription :: "TeddyEngineDescription list \<Rightarrow> u32 \<Rightarrow> TeddyEngineDescription option" where
  "getTeddyDescription [] engineID = None"
| "getTeddyDescription (desc # descs) engineID =
     (if ID desc = engineID then Some desc else getTeddyDescription descs engineID)"

section \<open>Specification-side quantities\<close>

text \<open>
  The literals that the flood heuristic of \<^verbatim>\<open>isAllowed\<close> counts, as a list: those
  whose length is strictly less than the number of masks of the engine.
\<close>

definition short_literals :: "TeddyEngineDescription \<Rightarrow> hwlmLiteral list \<Rightarrow> hwlmLiteral list" where
  "short_literals eng vl = filter (\<lambda>lit. length (s lit) < unat (numMasks eng)) vl"

text \<open>
  The score as the specification words it, a sum of five terms over the natural
  numbers, without any machine arithmetic.
\<close>

definition spec_score :: "hwlmLiteral list \<Rightarrow> nat \<Rightarrow> TeddyEngineDescription \<Rightarrow> nat" where
  "spec_score vl max_flood_tail eng =
     (if \<not> packed eng then 100 else 0) +
     (if length vl > 4 * unat (numBuckets eng) then unat (numMasks eng) * 4 else 100) +
     (if unat (numMasks eng) > max_flood_tail then 50 else 0) +
     nat (6 div (\<bar>3 - int (unat (numMasks eng))\<bar> + 1)) +
     16 div unat (numBuckets eng)"

section \<open>Properties of the flood-tail analysis\<close>

lemma suffix_run_le: "suffix_run str \<le> length str"
  unfolding suffix_run_def using length_takeWhile_le [of _ "rev str"] by simp

lemma suffix_run_nth: "i < suffix_run str \<Longrightarrow> rev str ! i = last str"
proof -
  assume i: "i < suffix_run str"
  let ?t = "takeWhile (\<lambda>c. c = last str) (rev str)"
  from i have "?t ! i \<in> set ?t" by (simp add: suffix_run_def)
  then have "?t ! i = last str" by (auto dest: set_takeWhileD)
  moreover from i have "?t ! i = rev str ! i" by (simp add: suffix_run_def takeWhile_nth)
  ultimately show ?thesis by simp
qed

lemma suffix_run_ge:
  "k \<le> length str \<Longrightarrow> (\<And>i. i < k \<Longrightarrow> rev str ! i = last str) \<Longrightarrow> k \<le> suffix_run str"
  unfolding suffix_run_def by (rule length_takeWhile_less_P_nth) simp_all

lemma suffix_run_pos: "str \<noteq> [] \<Longrightarrow> 0 < suffix_run str"
  by (cases str rule: rev_cases) (simp_all add: suffix_run_def)

text \<open>Both reads of the inner loop are inside the string while \<open>j < length str\<close>.\<close>

lemma string_at_rev:
  "j < length str \<Longrightarrow> string_at str (int (length str) - int j - 1) = Inr (rev str ! j)"
proof -
  assume j: "j < length str"
  then have "nat (int (length str) - int j - 1) = length str - Suc j" by linarith
  with j show ?thesis by (simp add: string_at_def rev_nth)
qed

lemma string_at_last: "str \<noteq> [] \<Longrightarrow> string_at str (int (length str) - 1) = Inr (last str)"
  by (cases str rule: rev_cases) (simp_all add: string_at_def nth_append)

text \<open>
  The invariant of the inner loop: the \<open>j\<close> bytes at the end of the string are equal to
  the last one. From any such \<open>j\<close> the loop ends with the length of the whole run.
\<close>

lemma flood_tail_loop_run:
  "str \<noteq> [] \<Longrightarrow> j \<le> suffix_run str \<Longrightarrow> flood_tail_loop str j = Inr (suffix_run str)"
proof (induction str j rule: flood_tail_loop.induct)
  case (1 str j)
  show ?case
  proof (cases "j < length str")
    case True
    note a = string_at_rev [OF True] and b = string_at_last [OF "1.prems"(1)]
    show ?thesis
    proof (cases "rev str ! j = last str")
      case same: True
      have "Suc j \<le> suffix_run str"
      proof (rule suffix_run_ge)
        show "Suc j \<le> length str" using True by simp
      next
        fix i assume "i < Suc j"
        then consider "i < suffix_run str" | "i = j" using "1.prems"(2) by linarith
        then show "rev str ! i = last str" using same by cases (simp_all add: suffix_run_nth)
      qed
      then have "flood_tail_loop str (j + 1) = Inr (suffix_run str)"
        using "1.IH" [OF True a b] same "1.prems"(1) by simp
      then show ?thesis using True a b same by (subst flood_tail_loop.simps) simp
    next
      case False
      then have "\<not> j < suffix_run str" using suffix_run_nth by blast
      then have "j = suffix_run str" using "1.prems"(2) by simp
      then show ?thesis using True a b False by (subst flood_tail_loop.simps) simp
    qed
  next
    case False
    then have "j = suffix_run str" using "1.prems"(2) suffix_run_le [of str] by simp
    then show ?thesis using False by (subst flood_tail_loop.simps) simp
  qed
qed

lemma flood_tail_loop_1: "str \<noteq> [] \<Longrightarrow> flood_tail_loop str (Suc 0) = Inr (suffix_run str)"
  using suffix_run_pos [of str] by (intro flood_tail_loop_run) simp_all

lemma Max_insert_max:
  "finite A \<Longrightarrow> Max (insert (max (m::nat) a) A) = max m (Max (insert a A))"
  by (cases "A = {}") (simp_all add: max.assoc)

text \<open>The outer loop, when the assertion holds for every literal.\<close>

lemma maxFloodTailLen_loop_Max:
  "\<forall>lit\<in>set vl. s lit \<noteq> [] \<Longrightarrow>
   maxFloodTailLen_loop vl m = Inr (Max (insert m ((\<lambda>lit. suffix_run (s lit)) ` set vl)))"
proof (induction vl arbitrary: m)
  case Nil
  show ?case by simp
next
  case (Cons lit vl)
  then show ?case by (simp add: flood_tail_loop_1 Max_insert_max)
qed

text \<open>The outer loop, when the assertion fails for some literal.\<close>

lemma maxFloodTailLen_loop_assert:
  "\<exists>lit\<in>set vl. s lit = [] \<Longrightarrow> maxFloodTailLen_loop vl m = Inl AssertionFailed"
proof (induction vl arbitrary: m)
  case Nil
  then show ?case by simp
next
  case (Cons lit vl)
  then show ?case by (cases "s lit = []") (simp_all add: flood_tail_loop_1)
qed

text \<open>
  Claim C1, as the code has it. For every literal of a set of non-empty literals, the
  flood tail that the analysis computes is the length of the run of bytes equal to the
  last byte at the end of the literal, the last byte included: it is at least 1 and at
  most the length of the literal. The flood tail of \<open>''aaab''\<close> is 1 and that of
  \<open>''abbb''\<close> is 3. The result of \<open>maxFloodTailLen\<close> is the maximum of the values of the
  literals (0 for the empty set).
\<close>

theorem maxFloodTailLen_suffix_run:
  assumes "\<forall>lit\<in>set vl. s lit \<noteq> []"
  shows "(\<forall>lit\<in>set vl. flood_tail_loop (s lit) 1 = Inr (suffix_run (s lit))
            \<and> 1 \<le> suffix_run (s lit) \<and> suffix_run (s lit) \<le> length (s lit))
         \<and> maxFloodTailLen vl = Inr (Max (insert 0 ((\<lambda>lit. suffix_run (s lit)) ` set vl)))
         \<and> flood_tail_loop ''aaab'' 1 = Inr 1 \<and> flood_tail_loop ''abbb'' 1 = Inr 3"
proof -
  have "flood_tail_loop ''aaab'' 1 = Inr 1" by code_simp
  moreover have "flood_tail_loop ''abbb'' 1 = Inr 3" by code_simp
  ultimately show ?thesis
    using assms maxFloodTailLen_loop_Max [OF assms, of 0]
    by (simp add: maxFloodTailLen_def flood_tail_loop_1 suffix_run_pos suffix_run_le Suc_le_eq)
qed

theorem maxFloodTailLen_suffix_run_witness:
  "maxFloodTailLen [\<lparr>s = ''aaab'', msk = []\<rparr>, \<lparr>s = ''abbb'', msk = []\<rparr>] = Inr 3"
proof -
  have "suffix_run ''aaab'' = 1" "suffix_run ''abbb'' = 3" by (simp_all add: suffix_run_def)
  then show ?thesis
    using maxFloodTailLen_suffix_run [of "[\<lparr>s = ''aaab'', msk = []\<rparr>, \<lparr>s = ''abbb'', msk = []\<rparr>]"]
    by simp
qed

text \<open>
  Claim C1 as written gives the flood tails 0 for \<open>''aaab''\<close> and 2 for \<open>''abbb''\<close>, the
  run without the last byte. The loop starts its counter at 1, so it returns 1 and 3.
\<close>

theorem flood_tail_counterexample:
  "flood_tail_loop ''aaab'' 1 = Inr 1 \<and> flood_tail_loop ''aaab'' 1 \<noteq> Inr 0 \<and>
   flood_tail_loop ''abbb'' 1 = Inr 3 \<and> flood_tail_loop ''abbb'' 1 \<noteq> Inr 2 \<and>
   maxFloodTailLen [\<lparr>s = ''aaab'', msk = []\<rparr>] = Inr 1 \<and>
   maxFloodTailLen [\<lparr>s = ''abbb'', msk = []\<rparr>] = Inr 3"
proof -
  have a: "flood_tail_loop ''aaab'' 1 = Inr 1" by code_simp
  have b: "flood_tail_loop ''abbb'' 1 = Inr 3" by code_simp
  from a b show ?thesis by (simp add: maxFloodTailLen_def)
qed

text \<open>
  Claim C9. When every literal is non-empty the analysis returns a value: no assertion
  fails and no read leaves its string. When some literal is empty the analysis stops
  at the assertion. Both reads of the inner loop, \<^verbatim>\<open>s[s.length() - j - 1]\<close> and
  \<^verbatim>\<open>s[s.length() - 1]\<close>, are inside the string for \<open>1 \<le> j < s.length()\<close>.
\<close>

theorem maxFloodTailLen_safe:
  "((\<forall>lit\<in>set vl. s lit \<noteq> []) \<longrightarrow> (\<exists>n. maxFloodTailLen vl = Inr n)) \<and>
   ((\<exists>lit\<in>set vl. s lit = []) \<longrightarrow> maxFloodTailLen vl = Inl AssertionFailed) \<and>
   (\<forall>str j. 1 \<le> j \<and> j < length str \<longrightarrow>
      (\<exists>a b. string_at str (int (length str) - int j - 1) = Inr a \<and>
             string_at str (int (length str) - 1) = Inr b))"
proof (intro conjI impI allI)
  assume "\<forall>lit\<in>set vl. s lit \<noteq> []"
  then show "\<exists>n. maxFloodTailLen vl = Inr n"
    by (simp add: maxFloodTailLen_def maxFloodTailLen_loop_Max)
next
  assume "\<exists>lit\<in>set vl. s lit = []"
  then show "maxFloodTailLen vl = Inl AssertionFailed"
    by (simp add: maxFloodTailLen_def maxFloodTailLen_loop_assert)
next
  fix str :: string and j :: nat
  assume j: "1 \<le> j \<and> j < length str"
  then have "str \<noteq> []" by auto
  with j show "\<exists>a b. string_at str (int (length str) - int j - 1) = Inr a \<and>
             string_at str (int (length str) - 1) = Inr b"
    by (simp add: string_at_rev string_at_last)
qed

theorem maxFloodTailLen_safe_witness:
  "(\<exists>n. maxFloodTailLen [\<lparr>s = ''abb'', msk = []\<rparr>] = Inr n) \<and>
   maxFloodTailLen [\<lparr>s = ''abb'', msk = []\<rparr>, \<lparr>s = [], msk = []\<rparr>] = Inl AssertionFailed \<and>
   (\<exists>a b. string_at ''abb'' (int (length ''abb'') - int 2 - 1) = Inr a \<and>
          string_at ''abb'' (int (length ''abb'') - 1) = Inr b)"
  using maxFloodTailLen_safe [of "[\<lparr>s = ''abb'', msk = []\<rparr>]"]
    maxFloodTailLen_safe [of "[\<lparr>s = ''abb'', msk = []\<rparr>, \<lparr>s = [], msk = []\<rparr>]"]
  by (simp add: string_at_def)

text \<open>
  Claim C10. For a non-empty set of non-empty literals the maximum flood tail is at
  least 1, so the condition \<^verbatim>\<open>eng.numMasks > max_flood_tail\<close> of the flood bonus is
  false for an engine with one mask.
\<close>

theorem maxFloodTailLen_ge_1:
  assumes "vl \<noteq> []" and "\<forall>lit\<in>set vl. s lit \<noteq> []" and "numMasks eng = 1"
  shows "\<exists>n. maxFloodTailLen vl = Inr n \<and> 1 \<le> n \<and> \<not> unat (numMasks eng) > n"
proof -
  let ?A = "(\<lambda>lit. suffix_run (s lit)) ` set vl"
  obtain lit where lit: "lit \<in> set vl" using assms(1) by (cases vl) auto
  then have "suffix_run (s lit) \<in> insert 0 ?A" by simp
  then have "suffix_run (s lit) \<le> Max (insert 0 ?A)" by (intro Max_ge) simp_all
  moreover have "0 < suffix_run (s lit)" using lit assms(2) by (simp add: suffix_run_pos)
  ultimately have "1 \<le> Max (insert 0 ?A)" by linarith
  then show ?thesis
    using maxFloodTailLen_loop_Max [OF assms(2), of 0] assms(3)
    by (simp add: maxFloodTailLen_def)
qed

theorem maxFloodTailLen_ge_1_witness:
  "\<exists>n. maxFloodTailLen [\<lparr>s = ''ab'', msk = []\<rparr>] = Inr n \<and> 1 \<le> n \<and>
     \<not> unat (numMasks \<lparr>ID = 0, requiredCapabilities = 0, numBuckets = 8,
          confirmPullBackDistance = 0, confirmTopLevelSplit = 1, numMasks = 1,
          packed = False\<rparr>) > n"
  using maxFloodTailLen_ge_1 [of "[\<lparr>s = ''ab'', msk = []\<rparr>]"
      "\<lparr>ID = 0, requiredCapabilities = 0, numBuckets = 8,
          confirmPullBackDistance = 0, confirmTopLevelSplit = 1, numMasks = 1,
          packed = False\<rparr>"]
  by simp

section \<open>Properties of the confirmation-need predicate\<close>

lemma needConfirm_loop_iff:
  "needConfirm_loop eng lits \<longleftrightarrow>
     (\<exists>lit\<in>set lits. length (s lit) > unat (numMasks eng) \<or> msk lit \<noteq> [])"
  by (induction lits) auto

text \<open>
  Claim C2. \<open>needConfirm\<close> is true exactly when the engine is packed, or there are more
  literals than buckets, or some literal is longer than the number of masks, or some
  literal has a non-empty mask. The result is the same for every reordering of the
  literals.
\<close>

theorem needConfirm_iff:
  "(needConfirm eng lits \<longleftrightarrow>
      packed eng \<or> length lits > unat (numBuckets eng) \<or>
      (\<exists>lit\<in>set lits. length (s lit) > unat (numMasks eng)) \<or>
      (\<exists>lit\<in>set lits. msk lit \<noteq> [])) \<and>
   (\<forall>lits'. mset lits' = mset lits \<longrightarrow> needConfirm eng lits' = needConfirm eng lits)"
proof (intro conjI allI impI)
  show "needConfirm eng lits \<longleftrightarrow>
      packed eng \<or> length lits > unat (numBuckets eng) \<or>
      (\<exists>lit\<in>set lits. length (s lit) > unat (numMasks eng)) \<or>
      (\<exists>lit\<in>set lits. msk lit \<noteq> [])"
    unfolding needConfirm_def needConfirm_loop_iff by auto
next
  fix lits' assume m: "mset lits' = mset lits"
  then have "set lits' = set lits" "length lits' = length lits"
    by (auto dest: mset_eq_setD mset_eq_length)
  then show "needConfirm eng lits' = needConfirm eng lits"
    unfolding needConfirm_def needConfirm_loop_iff by simp
qed

theorem needConfirm_iff_witness:
  "needConfirm \<lparr>ID = 0, requiredCapabilities = 0, numBuckets = 8,
          confirmPullBackDistance = 0, confirmTopLevelSplit = 1, numMasks = 2,
          packed = False\<rparr> [\<lparr>s = ''ab'', msk = []\<rparr>, \<lparr>s = ''abc'', msk = []\<rparr>] \<and>
   needConfirm \<lparr>ID = 0, requiredCapabilities = 0, numBuckets = 8,
          confirmPullBackDistance = 0, confirmTopLevelSplit = 1, numMasks = 2,
          packed = False\<rparr> [\<lparr>s = ''abc'', msk = []\<rparr>, \<lparr>s = ''ab'', msk = []\<rparr>] =
   needConfirm \<lparr>ID = 0, requiredCapabilities = 0, numBuckets = 8,
          confirmPullBackDistance = 0, confirmTopLevelSplit = 1, numMasks = 2,
          packed = False\<rparr> [\<lparr>s = ''ab'', msk = []\<rparr>, \<lparr>s = ''abc'', msk = []\<rparr>]"
  using needConfirm_iff [of "\<lparr>ID = 0, requiredCapabilities = 0, numBuckets = 8,
          confirmPullBackDistance = 0, confirmTopLevelSplit = 1, numMasks = 2,
          packed = False\<rparr>" "[\<lparr>s = ''ab'', msk = []\<rparr>, \<lparr>s = ''abc'', msk = []\<rparr>]"]
  by (simp add: add_mset_commute)

section \<open>Properties of the eligibility filter\<close>

text \<open>The chain of early returns of \<^verbatim>\<open>isAllowed\<close> as one conjunction.\<close>

lemma isAllowed_iff:
  "isAllowed TEDDY_BUCKET_LOAD vl eng max_lit_len target \<longleftrightarrow>
     isValidOnTarget eng target \<and> bucket_capacity_ok TEDDY_BUCKET_LOAD eng (length vl) \<and>
     \<not> unat (numMasks eng) > max_lit_len \<and>
     \<not> (length vl > 40 \<and> unat (count_small_lits eng vl 0 * 5) > length vl)"
  unfolding isAllowed_def bucket_capacity_ok_def Let_def by auto

text \<open>
  Claim C8. When the two tests on the bucket capacity pass for a literal set, they pass
  for every set obtained from it by removing literals.
\<close>

theorem bucket_capacity_ok_subseq:
  assumes "bucket_capacity_ok TEDDY_BUCKET_LOAD eng (length vl)" and "subseq vl' vl"
  shows "bucket_capacity_ok TEDDY_BUCKET_LOAD eng (length vl')"
proof -
  have "length vl' \<le> length vl" using assms(2) by (rule list_emb_length)
  with assms(1) show ?thesis unfolding bucket_capacity_ok_def by auto
qed

theorem bucket_capacity_ok_subseq_witness:
  "bucket_capacity_ok 6 \<lparr>ID = 0, requiredCapabilities = 0, numBuckets = 8,
          confirmPullBackDistance = 0, confirmTopLevelSplit = 1, numMasks = 2,
          packed = False\<rparr> (length [\<lparr>s = ''ab'', msk = []\<rparr>])"
proof -
  have "subseq [\<lparr>s = ''ab'', msk = []\<rparr>] [\<lparr>s = ''ab'', msk = []\<rparr>, \<lparr>s = ''abc'', msk = []\<rparr>]"
    by simp
  moreover have "bucket_capacity_ok 6 \<lparr>ID = 0, requiredCapabilities = 0, numBuckets = 8,
          confirmPullBackDistance = 0, confirmTopLevelSplit = 1, numMasks = 2,
          packed = False\<rparr> (length [\<lparr>s = ''ab'', msk = []\<rparr>, \<lparr>s = ''abc'', msk = []\<rparr>])"
    by (simp add: bucket_capacity_ok_def)
  ultimately show ?thesis by (rule bucket_capacity_ok_subseq [rotated])
qed

text \<open>
  The counter of short literals does not wrap while the number of short literals stays
  below \<open>2 ^ 32\<close>.
\<close>

lemma count_small_lits_unat:
  "unat n + length (filter (\<lambda>lit. length (s lit) < unat (numMasks eng)) vl) < 2 ^ 32 \<Longrightarrow>
   unat (count_small_lits eng vl n) =
     unat n + length (filter (\<lambda>lit. length (s lit) < unat (numMasks eng)) vl)"
proof (induction vl arbitrary: n)
  case Nil
  then show ?case by simp
next
  case (Cons lit vl)
  show ?case
  proof (cases "length (s lit) < unat (numMasks eng)")
    case True
    with Cons.prems have "unat n + 1 < 2 ^ 32" by simp
    then have n1: "unat (n + 1) = unat n + 1" by (simp add: unat_word_ariths)
    with Cons.prems True
    have "unat (n + 1) + length (filter (\<lambda>lit. length (s lit) < unat (numMasks eng)) vl) < 2 ^ 32"
      by simp
    from Cons.IH [OF this] True n1 show ?thesis by simp
  next
    case False
    with Cons show ?thesis by simp
  qed
qed

lemma count_small_lits_0:
  assumes "length vl * 5 < 2 ^ 32"
  shows "unat (count_small_lits eng vl 0 * 5) = length (short_literals eng vl) * 5"
proof -
  have le: "length (short_literals eng vl) \<le> length vl" by (simp add: short_literals_def)
  have "length (filter (\<lambda>lit. length (s lit) < unat (numMasks eng)) vl) \<le> length vl"
    by (rule length_filter_le)
  with assms
  have "unat (0::u32) + length (filter (\<lambda>lit. length (s lit) < unat (numMasks eng)) vl) < 2 ^ 32"
    unfolding unat_0 by linarith
  from count_small_lits_unat [OF this]
  have c: "unat (count_small_lits eng vl 0) = length (short_literals eng vl)"
    by (simp add: short_literals_def)
  have "unat (count_small_lits eng vl 0 * 5) = (unat (count_small_lits eng vl 0) * 5) mod 2 ^ 32"
    by (simp add: unat_word_ariths)
  also have "\<dots> = length (short_literals eng vl) * 5"
  proof -
    from le assms have "length (short_literals eng vl) * 5 < 2 ^ 32" by linarith
    then show ?thesis unfolding c by (rule mod_less)
  qed
  finally show ?thesis .
qed

text \<open>
  Claim C5, as the code has it. For a descriptor that passes the checks on the target,
  the bucket capacity and the number of masks, and a literal set small enough for the
  32-bit product \<^verbatim>\<open>n_small_lits * 5\<close> not to wrap, \<open>isAllowed\<close> rejects the descriptor
  exactly when the set has more than 40 literals and the number of short literals times 5
  is strictly greater than the number of literals (strictly more than 20 percent). With
  40 literals or fewer the heuristic is not applied.
\<close>

theorem isAllowed_flood_heuristic:
  assumes "isValidOnTarget eng target"
      and "bucket_capacity_ok TEDDY_BUCKET_LOAD eng (length vl)"
      and "\<not> unat (numMasks eng) > max_lit_len"
      and "length vl * 5 < 2 ^ 32"
  shows "isAllowed TEDDY_BUCKET_LOAD vl eng max_lit_len target \<longleftrightarrow>
           \<not> (length vl > 40 \<and> length (short_literals eng vl) * 5 > length vl)"
  using assms(1-3) unfolding isAllowed_iff count_small_lits_0 [OF assms(4)] by simp

theorem isAllowed_flood_heuristic_witness:
  "\<not> isAllowed 6 (replicate 15 \<lparr>s = ''a'', msk = []\<rparr> @ replicate 35 \<lparr>s = ''abc'', msk = []\<rparr>)
     \<lparr>ID = 0, requiredCapabilities = 0, numBuckets = 16,
          confirmPullBackDistance = 0, confirmTopLevelSplit = 1, numMasks = 3,
          packed = True\<rparr> 3 0"
  using isAllowed_flood_heuristic [of "\<lparr>ID = 0, requiredCapabilities = 0, numBuckets = 16,
          confirmPullBackDistance = 0, confirmTopLevelSplit = 1, numMasks = 3,
          packed = True\<rparr>" 0 6
          "replicate 15 \<lparr>s = ''a'', msk = []\<rparr> @ replicate 35 \<lparr>s = ''abc'', msk = []\<rparr>" 3]
  by (simp add: isValidOnTarget_def bucket_capacity_ok_def short_literals_def)

text \<open>
  Claim C5 as written rejects a descriptor when the short literals are at least 20
  percent of the set. With 50 literals of which 10 are shorter than the 3 masks, exactly
  20 percent, a descriptor that passes the other checks is allowed.
\<close>

theorem isAllowed_flood_heuristic_counterexample:
  "length (replicate 10 \<lparr>s = ''a'', msk = []\<rparr> @ replicate 40 \<lparr>s = ''abc'', msk = []\<rparr>) = 50 \<and>
   length (short_literals \<lparr>ID = 0, requiredCapabilities = 0, numBuckets = 16,
          confirmPullBackDistance = 0, confirmTopLevelSplit = 1, numMasks = 3,
          packed = True\<rparr> (replicate 10 \<lparr>s = ''a'', msk = []\<rparr> @ replicate 40 \<lparr>s = ''abc'', msk = []\<rparr>)) = 10 \<and>
   isAllowed 6 (replicate 10 \<lparr>s = ''a'', msk = []\<rparr> @ replicate 40 \<lparr>s = ''abc'', msk = []\<rparr>)
     \<lparr>ID = 0, requiredCapabilities = 0, numBuckets = 16,
          confirmPullBackDistance = 0, confirmTopLevelSplit = 1, numMasks = 3,
          packed = True\<rparr> 3 0"
  by code_simp

section \<open>Properties of the score\<close>

text \<open>A word below \<open>2 ^ 31\<close> is its own two's complement reading.\<close>

lemma sint_small:
  assumes "unat (w::u32) < 2 ^ 31"
  shows "sint w = uint w"
proof -
  from assms have "int (unat w) < int (2 ^ 31)" by (simp only: of_nat_less_iff)
  then have "uint w < 2 ^ 31" by simp
  moreover have "- (2 ^ 31) \<le> uint w" by (rule order_trans [of _ 0]) simp_all
  ultimately have "signed_take_bit 31 (uint w) = uint w"
    by (intro signed_take_bit_int_eq_self) simp_all
  then show ?thesis by (simp add: sint_uint)
qed

text \<open>The quotient of the term that peaks at three masks is between 0 and 6.\<close>

lemma peak_bonus_bounds:
  fixes k :: int
  shows "0 \<le> 6 div (\<bar>3 - k\<bar> + 1) \<and> 6 div (\<bar>3 - k\<bar> + 1) \<le> 6"
proof
  show "0 \<le> 6 div (\<bar>3 - k\<bar> + 1)" by (intro pos_imp_zdiv_nonneg_iff [THEN iffD2]) simp_all
  have "6 div (\<bar>3 - k\<bar> + 1) \<le> 6 div 1" by (intro zdiv_mono2) simp_all
  then show "6 div (\<bar>3 - k\<bar> + 1) \<le> 6" by simp
qed

lemma score_sum_bound:
  fixes m :: nat
  assumes "4 * m + 272 < 2 ^ 32" and "a \<le> 100" and "l \<le> m * 4 \<or> l \<le> 100" and "f \<le> 50"
      and "q \<le> 6" and "r \<le> 16"
  shows "a + l + f + q + r < 2 ^ 32"
  using assms by auto

lemma spec_score_bound:
  assumes "4 * unat (numMasks eng) + 272 < 2 ^ 32"
  shows "spec_score vl mft eng < 2 ^ 32"
  unfolding spec_score_def
proof (rule score_sum_bound [OF assms])
  show "nat (6 div (\<bar>3 - int (unat (numMasks eng))\<bar> + 1)) \<le> 6"
    using peak_bonus_bounds [of "int (unat (numMasks eng))"] by (simp only: nat_le_iff) simp
  show "16 div unat (numBuckets eng) \<le> 16" by (rule div_le_dividend)
qed simp_all

text \<open>With fewer than \<open>2 ^ 31\<close> masks no \<^verbatim>\<open>int\<close> operation of the score overflows.\<close>

lemma engine_score_no_overflow:
  assumes "unat (numMasks eng) < 2 ^ 31"
  shows "\<not> (3 - sint (numMasks eng) > INT_MAX \<or> \<bar>3 - sint (numMasks eng)\<bar> + 1 > INT_MAX)"
proof -
  have "0 \<le> uint (numMasks eng)" by simp
  moreover have "uint (numMasks eng) < 2147483648"
  proof -
    from assms have "int (unat (numMasks eng)) < int (2 ^ 31)" by (simp only: of_nat_less_iff)
    then show ?thesis by simp
  qed
  ultimately show ?thesis unfolding sint_small [OF assms] INT_MAX_def by linarith
qed

text \<open>
  Where no 32-bit operation wraps, the score of the code is the image of the score of
  the specification.
\<close>

lemma engine_score_of_nat:
  assumes nb: "numBuckets eng \<noteq> 0"
      and b4: "4 * unat (numBuckets eng) < 2 ^ 32"
      and m4: "4 * unat (numMasks eng) + 272 < 2 ^ 32"
  shows "engine_score vl mft eng = Inr (of_nat (spec_score vl mft eng))"
proof -
  have m31: "unat (numMasks eng) < 2 ^ 31" using m4 by simp
  note no_ovf = engine_score_no_overflow [OF m31]
  have b: "unat (4 * numBuckets eng) = 4 * unat (numBuckets eng)"
    using b4 by (simp add: unat_word_ariths)
  have q: "(word_of_int (6 div (\<bar>3 - sint (numMasks eng)\<bar> + 1)) :: u32)
             = of_nat (nat (6 div (\<bar>3 - int (unat (numMasks eng))\<bar> + 1)))"
    using peak_bonus_bounds [of "uint (numMasks eng)"] unfolding sint_small [OF m31] by simp
  have r: "16 div numBuckets eng = of_nat (16 div unat (numBuckets eng))"
    by (simp add: word_arith_nat_div)
  have m: "numMasks eng * 4 = of_nat (unat (numMasks eng) * 4)" by simp
  have "engine_score vl mft eng =
     Inr ((if \<not> packed eng then 100 else 0) +
          (if length vl > unat (4 * numBuckets eng) then numMasks eng * 4 else 100) +
          (if unat (numMasks eng) > mft then 50 else 0) +
          word_of_int (6 div (\<bar>3 - sint (numMasks eng)\<bar> + 1)) +
          16 div numBuckets eng)"
    unfolding engine_score_def Let_def using no_ovf nb by (simp only: if_False) simp
  also have "\<dots> = Inr (of_nat (spec_score vl mft eng))"
    unfolding b q r m spec_score_def by simp
  finally show ?thesis .
qed

text \<open>
  Claim C4. For an engine with at least one bucket whose numbers of buckets and masks
  are small enough for the 32-bit arithmetic of the score not to wrap (four times the
  number of buckets and four times the number of masks plus 272 stay below \<open>2 ^ 32\<close>),
  the score is computed without error and its value is the sum of the five terms of the
  specification: 100 if not packed; \<open>numMasks * 4\<close> if there are more than
  \<open>4 * numBuckets\<close> literals and 100 otherwise; 50 if \<open>numMasks > max_flood_tail\<close>;
  \<open>6 div (\<bar>3 - numMasks\<bar> + 1)\<close>; and \<open>16 div numBuckets\<close>.
\<close>

theorem engine_score_spec:
  assumes "numBuckets eng \<noteq> 0"
      and "4 * unat (numBuckets eng) < 2 ^ 32"
      and "4 * unat (numMasks eng) + 272 < 2 ^ 32"
  shows "\<exists>score. engine_score vl max_flood_tail eng = Inr score \<and>
           unat score = spec_score vl max_flood_tail eng"
proof -
  have "unat (of_nat (spec_score vl max_flood_tail eng) :: u32) = spec_score vl max_flood_tail eng"
    using spec_score_bound [OF assms(3), of vl max_flood_tail] by (simp add: unat_of_nat)
  then show ?thesis using engine_score_of_nat [OF assms] by simp
qed

theorem engine_score_spec_witness:
  "\<exists>score. engine_score [\<lparr>s = ''ab'', msk = []\<rparr>] 1
      \<lparr>ID = 1, requiredCapabilities = 0, numBuckets = 8, confirmPullBackDistance = 0,
        confirmTopLevelSplit = 1, numMasks = 2, packed = False\<rparr> = Inr score \<and>
     unat score = spec_score [\<lparr>s = ''ab'', msk = []\<rparr>] 1
      \<lparr>ID = 1, requiredCapabilities = 0, numBuckets = 8, confirmPullBackDistance = 0,
        confirmTopLevelSplit = 1, numMasks = 2, packed = False\<rparr>"
  using engine_score_spec [of "\<lparr>ID = 1, requiredCapabilities = 0, numBuckets = 8, confirmPullBackDistance = 0,
        confirmTopLevelSplit = 1, numMasks = 2, packed = False\<rparr>" "[\<lparr>s = ''ab'', msk = []\<rparr>]" 1]
  by simp

section \<open>Properties of the selection\<close>

text \<open>The score is a value for an engine with a bucket and fewer than \<open>2 ^ 31\<close> masks.\<close>

lemma engine_score_Inr:
  assumes "numBuckets eng \<noteq> 0" and "unat (numMasks eng) < 2 ^ 31"
  shows "\<exists>score. engine_score vl mft eng = Inr score"
  using engine_score_no_overflow [OF assms(2)] assms(1)
  unfolding engine_score_def Let_def by (simp only: if_False) simp

text \<open>A descriptor that the loop returns is its initial best or an allowed catalog entry.\<close>

lemma loop_Some_mem:
  "chooseTeddyEngine_loop L target vl mll mft descs best bs = Inr (Some d) \<Longrightarrow>
   best = Some d \<or> (d \<in> set descs \<and> isAllowed L vl d mll target)"
proof (induction descs arbitrary: best bs)
  case Nil
  then show ?case by simp
next
  case (Cons eng descs)
  show ?case
  proof (cases "isAllowed L vl eng mll target")
    case False
    with Cons.prems have "chooseTeddyEngine_loop L target vl mll mft descs best bs = Inr (Some d)"
      by simp
    from Cons.IH [OF this] show ?thesis by auto
  next
    case True
    show ?thesis
    proof (cases "engine_score vl mft eng")
      case (Inl e)
      with Cons.prems True show ?thesis by simp
    next
      case (Inr score)
      show ?thesis
      proof (cases "best = None \<or> score > bs")
        case replace: True
        with Cons.prems \<open>isAllowed L vl eng mll target\<close> Inr
        have "chooseTeddyEngine_loop L target vl mll mft descs (Some eng) score = Inr (Some d)"
          by auto
        from Cons.IH [OF this] True show ?thesis by auto
      next
        case False
        with Cons.prems True Inr
        have "chooseTeddyEngine_loop L target vl mll mft descs best bs = Inr (Some d)"
          by auto
        from Cons.IH [OF this] show ?thesis by auto
      qed
    qed
  qed
qed

text \<open>The loop returns \<open>None\<close> exactly when it starts without a best and allows no entry.\<close>

lemma loop_None_iff:
  "chooseTeddyEngine_loop L target vl mll mft descs best bs = Inr None \<longleftrightarrow>
   best = None \<and> (\<forall>eng\<in>set descs. \<not> isAllowed L vl eng mll target)"
proof (induction descs arbitrary: best bs)
  case Nil
  show ?case by simp
next
  case (Cons eng descs)
  show ?case
    by (cases "engine_score vl mft eng") (auto simp: Cons.IH)
qed

text \<open>
  The invariant of the loop once it has a best descriptor \<open>b\<close> with score \<open>bs\<close>: the result
  splits the list of \<open>b\<close> and the allowed entries that follow into entries with a strictly
  lower score, the result, and entries whose score is not higher.
\<close>

lemma loop_keeps_best:
  assumes "\<forall>eng\<in>set descs. isAllowed L vl eng mll target \<longrightarrow> (\<exists>score. engine_score vl mft eng = Inr score)"
      and "engine_score vl mft b = Inr bs"
  shows "\<exists>pre d post sc.
           b # filter (\<lambda>eng. isAllowed L vl eng mll target) descs = pre @ d # post \<and>
           chooseTeddyEngine_loop L target vl mll mft descs (Some b) bs = Inr (Some d) \<and>
           engine_score vl mft d = Inr sc \<and>
           (\<forall>x\<in>set pre. \<exists>a. engine_score vl mft x = Inr a \<and> a < sc) \<and>
           (\<forall>x\<in>set post. \<exists>a. engine_score vl mft x = Inr a \<and> a \<le> sc)"
  using assms
proof (induction descs arbitrary: b bs)
  case Nil
  have "b # filter (\<lambda>eng. isAllowed L vl eng mll target) [] = [] @ b # []" by simp
  moreover have "chooseTeddyEngine_loop L target vl mll mft [] (Some b) bs = Inr (Some b)" by simp
  moreover have "\<forall>x\<in>set ([]::TeddyEngineDescription list). \<exists>a. engine_score vl mft x = Inr a \<and> a < bs" by simp
  moreover have "\<forall>x\<in>set ([]::TeddyEngineDescription list). \<exists>a. engine_score vl mft x = Inr a \<and> a \<le> bs" by simp
  ultimately show ?case using Nil.prems(2) by blast
next
  case (Cons eng descs)
  let ?ok = "\<lambda>eng. isAllowed L vl eng mll target"
  note bscore = Cons.prems(2)
  from Cons.prems(1)
  have rest: "\<forall>eng\<in>set descs. ?ok eng \<longrightarrow> (\<exists>score. engine_score vl mft eng = Inr score)"
    by simp
  show ?case
  proof (cases "?ok eng")
    case False
    with Cons.IH [OF rest Cons.prems(2)] show ?thesis by simp
  next
    case True
    with Cons.prems(1) obtain se where se: "engine_score vl mft eng = Inr se" by auto
    show ?thesis
    proof (cases "se > bs")
      case better: True
      from Cons.IH [OF rest se] obtain pre d post sc where
        dec: "eng # filter ?ok descs = pre @ d # post"
        and res: "chooseTeddyEngine_loop L target vl mll mft descs (Some eng) se = Inr (Some d)"
        and sc: "engine_score vl mft d = Inr sc"
        and lo: "\<forall>x\<in>set pre. \<exists>a. engine_score vl mft x = Inr a \<and> a < sc"
        and hi: "\<forall>x\<in>set post. \<exists>a. engine_score vl mft x = Inr a \<and> a \<le> sc"
        by blast
      have "se \<le> sc"
      proof (cases pre)
        case Nil
        with dec se sc show ?thesis by simp
      next
        case pre_Cons: (Cons p ps)
        with dec have "eng \<in> set pre" by simp
        with lo have "\<exists>a. engine_score vl mft eng = Inr a \<and> a < sc" by blast
        with se show ?thesis by simp
      qed
      with better have "bs < sc" by simp
      with lo bscore
      have lo': "\<forall>x\<in>set (b # pre). \<exists>a. engine_score vl mft x = Inr a \<and> a < sc" by simp
      have "b # filter ?ok (eng # descs) = (b # pre) @ d # post" using True dec by simp
      moreover have "chooseTeddyEngine_loop L target vl mll mft (eng # descs) (Some b) bs = Inr (Some d)"
        using True se better res by simp
      ultimately show ?thesis using sc lo' hi by blast
    next
      case False
      from Cons.IH [OF rest Cons.prems(2)] obtain pre d post sc where
        dec: "b # filter ?ok descs = pre @ d # post"
        and res: "chooseTeddyEngine_loop L target vl mll mft descs (Some b) bs = Inr (Some d)"
        and sc: "engine_score vl mft d = Inr sc"
        and lo: "\<forall>x\<in>set pre. \<exists>a. engine_score vl mft x = Inr a \<and> a < sc"
        and hi: "\<forall>x\<in>set post. \<exists>a. engine_score vl mft x = Inr a \<and> a \<le> sc"
        by blast
      have res': "chooseTeddyEngine_loop L target vl mll mft (eng # descs) (Some b) bs = Inr (Some d)"
        using True se False res by simp
      show ?thesis
      proof (cases pre)
        case Nil
        with dec have d: "d = b" and post: "post = filter ?ok descs" by simp_all
        with sc bscore have "sc = bs" by simp
        with False have "se \<le> sc" by simp
        with se hi
        have "\<forall>x\<in>set (eng # post). \<exists>a. engine_score vl mft x = Inr a \<and> a \<le> sc" by simp
        moreover have "b # filter ?ok (eng # descs) = [] @ d # (eng # post)"
          using True d post by simp
        moreover have "\<forall>x\<in>set ([]::TeddyEngineDescription list).
            \<exists>a. engine_score vl mft x = Inr a \<and> a < sc" by simp
        ultimately show ?thesis using res' sc by blast
      next
        case pre_Cons: (Cons p ps)
        with dec have p: "p = b" and ps: "filter ?ok descs = ps @ d # post" by simp_all
        from lo pre_Cons p have "\<exists>a. engine_score vl mft b = Inr a \<and> a < sc" by simp
        with bscore have "bs < sc" by simp
        with False have "se < sc" by simp
        with lo se pre_Cons p
        have "\<forall>x\<in>set (b # eng # ps). \<exists>a. engine_score vl mft x = Inr a \<and> a < sc" by simp
        moreover have "b # filter ?ok (eng # descs) = (b # eng # ps) @ d # post"
          using True ps by simp
        ultimately show ?thesis using res' sc hi by blast
      qed
    qed
  qed
qed

text \<open>The same for the whole loop, which starts without a best descriptor.\<close>

lemma loop_first_best:
  assumes "\<forall>eng\<in>set descs. isAllowed L vl eng mll target \<longrightarrow> (\<exists>score. engine_score vl mft eng = Inr score)"
      and "\<exists>eng\<in>set descs. isAllowed L vl eng mll target"
  shows "\<exists>pre d post sc.
           filter (\<lambda>eng. isAllowed L vl eng mll target) descs = pre @ d # post \<and>
           chooseTeddyEngine_loop L target vl mll mft descs None bs = Inr (Some d) \<and>
           engine_score vl mft d = Inr sc \<and>
           (\<forall>x\<in>set pre. \<exists>a. engine_score vl mft x = Inr a \<and> a < sc) \<and>
           (\<forall>x\<in>set post. \<exists>a. engine_score vl mft x = Inr a \<and> a \<le> sc)"
  using assms
proof (induction descs)
  case Nil
  then show ?case by simp
next
  case (Cons eng descs)
  let ?ok = "\<lambda>eng. isAllowed L vl eng mll target"
  from Cons.prems(1)
  have rest: "\<forall>eng\<in>set descs. ?ok eng \<longrightarrow> (\<exists>score. engine_score vl mft eng = Inr score)"
    by simp
  show ?case
  proof (cases "?ok eng")
    case False
    with Cons.prems(2) have "\<exists>eng\<in>set descs. ?ok eng" by simp
    from Cons.IH [OF rest this] False show ?thesis by simp
  next
    case True
    with Cons.prems(1) obtain se where se: "engine_score vl mft eng = Inr se" by auto
    from loop_keeps_best [OF rest se] True se show ?thesis by simp
  qed
qed

lemma maxFloodTailLen_Inr:
  "\<forall>lit\<in>set vl. s lit \<noteq> [] \<Longrightarrow> \<exists>mft. maxFloodTailLen vl = Inr mft"
  by (simp add: maxFloodTailLen_def maxFloodTailLen_loop_Max)

text \<open>
  Claim C3. For non-empty literals and a catalog whose engines have a bucket and fewer
  than \<open>2 ^ 31\<close> masks, when some catalog descriptor is allowed, \<open>chooseTeddyEngine\<close>
  returns a descriptor \<open>d\<close> of the list of allowed descriptors, taken in catalog order,
  such that every allowed descriptor before \<open>d\<close> has a strictly lower score and every
  allowed descriptor after \<open>d\<close> has a score that is not higher: \<open>d\<close> has the maximum
  score, and among the descriptors with that score it is the first.
\<close>

theorem chooseTeddyEngine_first_best:
  assumes "\<forall>lit\<in>set vl. s lit \<noteq> []"
      and "\<forall>eng\<in>set descs. numBuckets eng \<noteq> 0 \<and> unat (numMasks eng) < 2 ^ 31"
      and "\<exists>eng\<in>set descs. isAllowed L vl eng (maxLen vl) target"
  shows "\<exists>mft pre d post sc.
           maxFloodTailLen vl = Inr mft \<and>
           filter (\<lambda>eng. isAllowed L vl eng (maxLen vl) target) descs = pre @ d # post \<and>
           chooseTeddyEngine L descs target vl = Inr (Some d) \<and>
           engine_score vl mft d = Inr sc \<and>
           (\<forall>x\<in>set pre. \<exists>a. engine_score vl mft x = Inr a \<and> a < sc) \<and>
           (\<forall>x\<in>set post. \<exists>a. engine_score vl mft x = Inr a \<and> a \<le> sc)"
proof -
  from maxFloodTailLen_Inr [OF assms(1)] obtain mft where mft: "maxFloodTailLen vl = Inr mft" ..
  have scores: "\<forall>eng\<in>set descs. isAllowed L vl eng (maxLen vl) target \<longrightarrow>
      (\<exists>score. engine_score vl mft eng = Inr score)"
    using assms(2) by (simp add: engine_score_Inr)
  from loop_first_best [OF scores assms(3), of 0] obtain pre d post sc where
    "filter (\<lambda>eng. isAllowed L vl eng (maxLen vl) target) descs = pre @ d # post"
    "chooseTeddyEngine_loop L target vl (maxLen vl) mft descs None 0 = Inr (Some d)"
    "engine_score vl mft d = Inr sc"
    "\<forall>x\<in>set pre. \<exists>a. engine_score vl mft x = Inr a \<and> a < sc"
    "\<forall>x\<in>set post. \<exists>a. engine_score vl mft x = Inr a \<and> a \<le> sc"
    by blast
  moreover from this(2) mft have "chooseTeddyEngine L descs target vl = Inr (Some d)"
    by (simp add: chooseTeddyEngine_def)
  ultimately show ?thesis using mft by blast
qed

theorem chooseTeddyEngine_first_best_witness:
  "\<exists>d. chooseTeddyEngine 6
     [\<lparr>ID = 1, requiredCapabilities = 0, numBuckets = 8, confirmPullBackDistance = 0,
        confirmTopLevelSplit = 1, numMasks = 2, packed = False\<rparr>,
      \<lparr>ID = 2, requiredCapabilities = 0, numBuckets = 8, confirmPullBackDistance = 0,
        confirmTopLevelSplit = 1, numMasks = 2, packed = False\<rparr>]
     0 [\<lparr>s = ''ab'', msk = []\<rparr>, \<lparr>s = ''cd'', msk = []\<rparr>] = Inr (Some d)"
proof -
  have h1: "\<forall>lit\<in>set [\<lparr>s = ''ab'', msk = []\<rparr>, \<lparr>s = ''cd'', msk = []\<rparr>]. s lit \<noteq> []" by simp
  have h2: "\<forall>eng\<in>set [\<lparr>ID = 1, requiredCapabilities = 0, numBuckets = 8, confirmPullBackDistance = 0,
        confirmTopLevelSplit = 1, numMasks = 2, packed = False\<rparr>,
      \<lparr>ID = 2, requiredCapabilities = 0, numBuckets = 8, confirmPullBackDistance = 0,
        confirmTopLevelSplit = 1, numMasks = 2, packed = False\<rparr>].
      numBuckets eng \<noteq> 0 \<and> unat (numMasks eng) < 2 ^ 31" by simp
  have h3: "\<exists>eng\<in>set [\<lparr>ID = 1, requiredCapabilities = 0, numBuckets = 8, confirmPullBackDistance = 0,
        confirmTopLevelSplit = 1, numMasks = 2, packed = False\<rparr>,
      \<lparr>ID = 2, requiredCapabilities = 0, numBuckets = 8, confirmPullBackDistance = 0,
        confirmTopLevelSplit = 1, numMasks = 2, packed = False\<rparr>].
      isAllowed 6 [\<lparr>s = ''ab'', msk = []\<rparr>, \<lparr>s = ''cd'', msk = []\<rparr>] eng
        (maxLen [\<lparr>s = ''ab'', msk = []\<rparr>, \<lparr>s = ''cd'', msk = []\<rparr>]) 0"
    by (simp add: isAllowed_def isValidOnTarget_def maxLen_def)
  from chooseTeddyEngine_first_best [OF h1 h2 h3] show ?thesis by blast
qed

text \<open>
  Claim C6. For non-empty literals, \<open>chooseTeddyEngine\<close> returns \<open>None\<close> if and only if
  no catalog descriptor is allowed. For a catalog whose engines have a bucket and fewer
  than \<open>2 ^ 31\<close> masks the call never ends in an error, and when some descriptor is
  allowed the result is an allowed catalog descriptor whose score is the maximum of the
  scores of the allowed descriptors.
\<close>

theorem chooseTeddyEngine_absent_iff:
  assumes "\<forall>lit\<in>set vl. s lit \<noteq> []"
  shows "(chooseTeddyEngine L descs target vl = Inr None \<longleftrightarrow>
            (\<forall>eng\<in>set descs. \<not> isAllowed L vl eng (maxLen vl) target)) \<and>
         ((\<forall>eng\<in>set descs. numBuckets eng \<noteq> 0 \<and> unat (numMasks eng) < 2 ^ 31) \<longrightarrow>
            (\<exists>r. chooseTeddyEngine L descs target vl = Inr r) \<and>
            ((\<exists>eng\<in>set descs. isAllowed L vl eng (maxLen vl) target) \<longrightarrow>
               (\<exists>mft d sc. maxFloodTailLen vl = Inr mft \<and>
                  chooseTeddyEngine L descs target vl = Inr (Some d) \<and>
                  d \<in> set descs \<and> isAllowed L vl d (maxLen vl) target \<and>
                  engine_score vl mft d = Inr sc \<and>
                  (\<forall>x\<in>set descs. isAllowed L vl x (maxLen vl) target \<longrightarrow>
                     (\<exists>a. engine_score vl mft x = Inr a \<and> a \<le> sc)))))"
proof -
  let ?ok = "\<lambda>eng. isAllowed L vl eng (maxLen vl) target"
  from maxFloodTailLen_Inr [OF assms] obtain mft where mft: "maxFloodTailLen vl = Inr mft" ..
  have eq: "chooseTeddyEngine L descs target vl =
      chooseTeddyEngine_loop L target vl (maxLen vl) mft descs None 0"
    using mft by (simp add: chooseTeddyEngine_def)
  have a: "chooseTeddyEngine L descs target vl = Inr None \<longleftrightarrow> (\<forall>eng\<in>set descs. \<not> ?ok eng)"
    unfolding eq loop_None_iff by simp
  have b: "\<exists>mft d sc. maxFloodTailLen vl = Inr mft \<and>
                  chooseTeddyEngine L descs target vl = Inr (Some d) \<and>
                  d \<in> set descs \<and> ?ok d \<and> engine_score vl mft d = Inr sc \<and>
                  (\<forall>x\<in>set descs. ?ok x \<longrightarrow> (\<exists>a. engine_score vl mft x = Inr a \<and> a \<le> sc))"
    if sane: "\<forall>eng\<in>set descs. numBuckets eng \<noteq> 0 \<and> unat (numMasks eng) < 2 ^ 31"
      and some: "\<exists>eng\<in>set descs. ?ok eng"
  proof -
    have "\<forall>eng\<in>set descs. ?ok eng \<longrightarrow> (\<exists>score. engine_score vl mft eng = Inr score)"
      using sane by (simp add: engine_score_Inr)
    from loop_first_best [OF this some, of 0] obtain pre d post sc where
      dec: "filter ?ok descs = pre @ d # post"
      and res: "chooseTeddyEngine_loop L target vl (maxLen vl) mft descs None 0 = Inr (Some d)"
      and sc: "engine_score vl mft d = Inr sc"
      and lo: "\<forall>x\<in>set pre. \<exists>a. engine_score vl mft x = Inr a \<and> a < sc"
      and hi: "\<forall>x\<in>set post. \<exists>a. engine_score vl mft x = Inr a \<and> a \<le> sc"
      by blast
    have "d \<in> set (filter ?ok descs)" unfolding dec by simp
    then have d: "d \<in> set descs" "?ok d" by simp_all
    have "\<exists>a. engine_score vl mft x = Inr a \<and> a \<le> sc" if "x \<in> set descs" "?ok x" for x
    proof -
      from that have "x \<in> set (filter ?ok descs)" by simp
      then consider "x \<in> set pre" | "x = d" | "x \<in> set post" unfolding dec by auto
      then show ?thesis
      proof cases
        case 1
        with lo obtain a where "engine_score vl mft x = Inr a" "a < sc" by blast
        then show ?thesis by simp
      next
        case 2
        with sc show ?thesis by simp
      next
        case 3
        with hi show ?thesis by blast
      qed
    qed
    with mft res sc d show ?thesis unfolding eq by blast
  qed
  have c: "\<exists>r. chooseTeddyEngine L descs target vl = Inr r"
    if sane: "\<forall>eng\<in>set descs. numBuckets eng \<noteq> 0 \<and> unat (numMasks eng) < 2 ^ 31"
  proof (cases "\<exists>eng\<in>set descs. ?ok eng")
    case True
    from b [OF sane True] show ?thesis by blast
  next
    case False
    with a show ?thesis by blast
  qed
  from a b c show ?thesis by blast
qed

theorem chooseTeddyEngine_absent_iff_witness:
  "chooseTeddyEngine 6
     [\<lparr>ID = 1, requiredCapabilities = 0, numBuckets = 8, confirmPullBackDistance = 0,
        confirmTopLevelSplit = 1, numMasks = 3, packed = False\<rparr>]
     0 [\<lparr>s = ''ab'', msk = []\<rparr>, \<lparr>s = ''cd'', msk = []\<rparr>] = Inr None \<and>
   (\<exists>d. chooseTeddyEngine 6
     [\<lparr>ID = 1, requiredCapabilities = 0, numBuckets = 8, confirmPullBackDistance = 0,
        confirmTopLevelSplit = 1, numMasks = 2, packed = False\<rparr>]
     0 [\<lparr>s = ''ab'', msk = []\<rparr>, \<lparr>s = ''cd'', msk = []\<rparr>] = Inr (Some d))"
proof
  show "chooseTeddyEngine 6
     [\<lparr>ID = 1, requiredCapabilities = 0, numBuckets = 8, confirmPullBackDistance = 0,
        confirmTopLevelSplit = 1, numMasks = 3, packed = False\<rparr>]
     0 [\<lparr>s = ''ab'', msk = []\<rparr>, \<lparr>s = ''cd'', msk = []\<rparr>] = Inr None"
    using chooseTeddyEngine_absent_iff [of "[\<lparr>s = ''ab'', msk = []\<rparr>, \<lparr>s = ''cd'', msk = []\<rparr>]" 6
     "[\<lparr>ID = 1, requiredCapabilities = 0, numBuckets = 8, confirmPullBackDistance = 0,
        confirmTopLevelSplit = 1, numMasks = 3, packed = False\<rparr>]" 0]
    by (simp add: isAllowed_def isValidOnTarget_def maxLen_def)
next
  have "\<exists>mft d sc. maxFloodTailLen [\<lparr>s = ''ab'', msk = []\<rparr>, \<lparr>s = ''cd'', msk = []\<rparr>] = Inr mft \<and>
      chooseTeddyEngine 6
     [\<lparr>ID = 1, requiredCapabilities = 0, numBuckets = 8, confirmPullBackDistance = 0,
        confirmTopLevelSplit = 1, numMasks = 2, packed = False\<rparr>]
     0 [\<lparr>s = ''ab'', msk = []\<rparr>, \<lparr>s = ''cd'', msk = []\<rparr>] = Inr (Some d) \<and>
      d \<in> set [\<lparr>ID = 1, requiredCapabilities = 0, numBuckets = 8, confirmPullBackDistance = 0,
        confirmTopLevelSplit = 1, numMasks = 2, packed = False\<rparr>] \<and>
      isAllowed 6 [\<lparr>s = ''ab'', msk = []\<rparr>, \<lparr>s = ''cd'', msk = []\<rparr>] d (maxLen [\<lparr>s = ''ab'', msk = []\<rparr>, \<lparr>s = ''cd'', msk = []\<rparr>]) 0 \<and>
      engine_score [\<lparr>s = ''ab'', msk = []\<rparr>, \<lparr>s = ''cd'', msk = []\<rparr>] mft d = Inr sc \<and>
      (\<forall>x\<in>set [\<lparr>ID = 1, requiredCapabilities = 0, numBuckets = 8, confirmPullBackDistance = 0,
        confirmTopLevelSplit = 1, numMasks = 2, packed = False\<rparr>].
         isAllowed 6 [\<lparr>s = ''ab'', msk = []\<rparr>, \<lparr>s = ''cd'', msk = []\<rparr>] x (maxLen [\<lparr>s = ''ab'', msk = []\<rparr>, \<lparr>s = ''cd'', msk = []\<rparr>]) 0 \<longrightarrow>
         (\<exists>a. engine_score [\<lparr>s = ''ab'', msk = []\<rparr>, \<lparr>s = ''cd'', msk = []\<rparr>] mft x = Inr a \<and> a \<le> sc))"
    using chooseTeddyEngine_absent_iff [of "[\<lparr>s = ''ab'', msk = []\<rparr>, \<lparr>s = ''cd'', msk = []\<rparr>]" 6
     "[\<lparr>ID = 1, requiredCapabilities = 0, numBuckets = 8, confirmPullBackDistance = 0,
        confirmTopLevelSplit = 1, numMasks = 2, packed = False\<rparr>]" 0]
    by (simp add: isAllowed_def isValidOnTarget_def maxLen_def)
  then show "\<exists>d. chooseTeddyEngine 6
     [\<lparr>ID = 1, requiredCapabilities = 0, numBuckets = 8, confirmPullBackDistance = 0,
        confirmTopLevelSplit = 1, numMasks = 2, packed = False\<rparr>]
     0 [\<lparr>s = ''ab'', msk = []\<rparr>, \<lparr>s = ''cd'', msk = []\<rparr>] = Inr (Some d)"
    by blast
qed

section \<open>Properties of the descriptor lookup\<close>

lemma getTeddyDescription_mem:
  "d \<in> set descs \<Longrightarrow> \<exists>d'. getTeddyDescription descs (ID d) = Some d' \<and> ID d' = ID d"
  by (induction descs) auto

text \<open>
  Claim C7. When \<open>chooseTeddyEngine\<close> returns a descriptor, \<open>getTeddyDescription\<close> on
  the same catalog finds a descriptor for its identifier, and the identifier of the
  descriptor found is the identifier of the chosen one.
\<close>

theorem getTeddyDescription_roundtrip:
  assumes "chooseTeddyEngine L descs target vl = Inr (Some d)"
  shows "\<exists>d'. getTeddyDescription descs (ID d) = Some d' \<and> ID d' = ID d"
proof -
  from assms obtain mft where
    "chooseTeddyEngine_loop L target vl (maxLen vl) mft descs None 0 = Inr (Some d)"
    by (auto simp: chooseTeddyEngine_def split: sum.splits)
  from loop_Some_mem [OF this] have "d \<in> set descs" by simp
  then show ?thesis by (rule getTeddyDescription_mem)
qed

theorem getTeddyDescription_roundtrip_witness:
  "\<exists>d'. getTeddyDescription
     [\<lparr>ID = 1, requiredCapabilities = 0, numBuckets = 8, confirmPullBackDistance = 0,
        confirmTopLevelSplit = 1, numMasks = 2, packed = False\<rparr>,
      \<lparr>ID = 2, requiredCapabilities = 0, numBuckets = 8, confirmPullBackDistance = 0,
        confirmTopLevelSplit = 1, numMasks = 2, packed = False\<rparr>] 1 = Some d' \<and> ID d' = 1"
proof -
  have "chooseTeddyEngine 6
     [\<lparr>ID = 1, requiredCapabilities = 0, numBuckets = 8, confirmPullBackDistance = 0,
        confirmTopLevelSplit = 1, numMasks = 2, packed = False\<rparr>,
      \<lparr>ID = 2, requiredCapabilities = 0, numBuckets = 8, confirmPullBackDistance = 0,
        confirmTopLevelSplit = 1, numMasks = 2, packed = False\<rparr>]
     0 [\<lparr>s = ''ab'', msk = []\<rparr>, \<lparr>s = ''cd'', msk = []\<rparr>] = Inr (Some \<lparr>ID = 1, requiredCapabilities = 0, numBuckets = 8, confirmPullBackDistance = 0,
        confirmTopLevelSplit = 1, numMasks = 2, packed = False\<rparr>)"
    by code_simp
  from getTeddyDescription_roundtrip [OF this] show ?thesis by simp
qed

end
